theory Spec2Isabelle
  imports
    Complex_Main
    "HOL-Library.AList"
    "HOL-Library.Log_Nat"
    "HOL-Library.Monad_Syntax"
    "HOL-Library.Signed_Division"
begin

section \<open>The data model of \<^verbatim>\<open>lruish.go\<close>\<close>

text \<open>
  The cache keeps \<^verbatim>\<open>*lruElem\<close> pointers in two places, the map \<^verbatim>\<open>items\<close> and the
  slice \<^verbatim>\<open>ring\<close>, and mutates the elements through either. The model therefore has an
  explicit heap: a pointer is an address into the list \<open>heap\<close>, \<^verbatim>\<open>nil\<close> is \<open>None\<close>, and
  \<^verbatim>\<open>&lruElem{...}\<close> appends a cell. Cells are never freed, so an element that was deleted
  from \<^verbatim>\<open>items\<close> but is still referenced by the ring keeps its fields, as under Go's
  garbage collector. A pointer is dereferenced by \<open>heap c ! p\<close>; the invariant
  \<open>well_formed\<close> below shows that every pointer stored in the key index or in the ring
  is an address of the heap.

  Go's \<^verbatim>\<open>int\<close> is modelled by \<open>int\<close>: every value computed by the code lies between
  \<open>-1\<close> and twice the ring size, and a ring whose size is near the 64-bit limit cannot
  be allocated. Keys are values of a type with equality (Go: comparable dynamic types).
  The map is an association list with unique keys, updated by \<open>AList.update\<close> and
  \<open>AList.delete\<close>; its order is not observable except through \<^verbatim>\<open>Keys\<close>, which Go
  leaves unordered as well.

  A run-time panic (index out of range, integer division by zero) is the result \<open>None\<close>.
\<close>

type_synonym ptr = nat

record ('k, 'v) lruElem =
  elem_value :: 'v
  key :: 'k
  index :: int

record ('k, 'v) lruish =
  size' :: int
  items :: "('k \<times> ptr) list"
  head :: int
  ring :: "ptr option list"
  heap :: "('k, 'v) lruElem list"

datatype error = Error string

text \<open>\<^verbatim>\<open>c.ring[i]\<close> as an expression and as an assignment target; both panic out of range.\<close>

definition ring_at :: "('k, 'v) lruish \<Rightarrow> int \<Rightarrow> ptr option option" where
  "ring_at c i =
     (if 0 \<le> i \<and> i < int (length (ring c)) then Some (ring c ! nat i) else None)"

definition ring_set :: "('k, 'v) lruish \<Rightarrow> int \<Rightarrow> ptr option \<Rightarrow> ('k, 'v) lruish option" where
  "ring_set c i p =
     (if 0 \<le> i \<and> i < int (length (ring c)) then Some (c\<lparr>ring := (ring c)[nat i := p]\<rparr>)
      else None)"

text \<open>Field assignments through a pointer: \<^verbatim>\<open>p.index = i\<close> and \<^verbatim>\<open>p.value = v\<close>.\<close>

definition set_index :: "('k, 'v) lruish \<Rightarrow> ptr \<Rightarrow> int \<Rightarrow> ('k, 'v) lruish" where
  "set_index c p i = c\<lparr>heap := (heap c)[p := (heap c ! p)\<lparr>index := i\<rparr>]\<rparr>"

definition set_value :: "('k, 'v) lruish \<Rightarrow> ptr \<Rightarrow> 'v \<Rightarrow> ('k, 'v) lruish" where
  "set_value c p v = c\<lparr>heap := (heap c)[p := (heap c ! p)\<lparr>elem_value := v\<rparr>]\<rparr>"

section \<open>The engine\<close>

definition NewUnsynched :: "int \<Rightarrow> error + ('k, 'v) lruish" where
  "NewUnsynched n =
     (if n \<le> 0 then Inl (Error ''must provide a positive size'')
      else Inr \<lparr>size' = n, items = [], head = 0, ring = replicate (nat n) None, heap = []\<rparr>)"

text \<open>
  \<^verbatim>\<open>promote\<close>: Go's \<^verbatim>\<open>/\<close> and \<^verbatim>\<open>%\<close> truncate towards zero (\<open>sdiv\<close>, \<open>smod\<close>) and
  \<^verbatim>\<open>%\<close> panics on a zero divisor. The tuple assignment reads both right-hand sides
  first and then assigns from left to right.
\<close>

definition promote :: "('k, 'v) lruish \<Rightarrow> ptr \<Rightarrow> ('k, 'v) lruish option" where
  "promote c ent =
     (let curIndex = index (heap c ! ent);
          position = curIndex - head c;
          position = (if position < 0 then position + size' c else position)
      in if size' c = 0 then None
         else
           let newIndex = (head c + position sdiv 2) smod size' c
           in do {
             other \<leftarrow> ring_at c newIndex;
             let c = (case other of None \<Rightarrow> c | Some p \<Rightarrow> set_index c p curIndex);
             let c = set_index c ent newIndex;
             a \<leftarrow> ring_at c newIndex;
             b \<leftarrow> ring_at c curIndex;
             c \<leftarrow> ring_set c curIndex a;
             ring_set c newIndex b
           })"

definition Get :: "('k, 'v) lruish \<Rightarrow> 'k \<Rightarrow> (('v option \<times> bool) \<times> ('k, 'v) lruish) option" where
  "Get c k =
     (case map_of (items c) k of
        Some ent \<Rightarrow> do {
          c \<leftarrow> promote c ent;
          Some ((Some (elem_value (heap c ! ent)), True), c)
        }
      | None \<Rightarrow> Some ((None, False), c))"

definition Add :: "('k, 'v) lruish \<Rightarrow> 'k \<Rightarrow> 'v \<Rightarrow> (bool \<times> ('k, 'v) lruish) option" where
  "Add c k v =
     (case map_of (items c) k of
        Some ent \<Rightarrow> do {
          c \<leftarrow> promote c ent;
          Some (False, set_value c ent v)
        }
      | None \<Rightarrow>
          let c = c\<lparr>head := head c - 1\<rparr>;
              c = (if head c < 0 then c\<lparr>head := head c + size' c\<rparr> else c);
              tailIndex = head c - 1;
              tailIndex = (if tailIndex < 0 then tailIndex + size' c else tailIndex)
          in do {
            toDelete \<leftarrow> ring_at c tailIndex;
            let c = (case toDelete of
                       None \<Rightarrow> c
                     | Some p \<Rightarrow> c\<lparr>items := AList.delete (key (heap c ! p)) (items c)\<rparr>);
            let ent = length (heap c);
            let c = c\<lparr>heap := heap c @ [\<lparr>elem_value = v, key = k, index = head c\<rparr>]\<rparr>;
            let c = c\<lparr>items := AList.update k ent (items c)\<rparr>;
            c \<leftarrow> ring_set c (head c) (Some ent);
            Some (True, c)
          })"

definition Contains :: "('k, 'v) lruish \<Rightarrow> 'k \<Rightarrow> (bool \<times> ('k, 'v) lruish) option" where
  "Contains c k = Some (map_of (items c) k \<noteq> None, c)"

definition Peek :: "('k, 'v) lruish \<Rightarrow> 'k \<Rightarrow> (('v option \<times> bool) \<times> ('k, 'v) lruish) option" where
  "Peek c k =
     (case map_of (items c) k of
        Some ent \<Rightarrow> Some ((Some (elem_value (heap c ! ent)), True), c)
      | None \<Rightarrow> Some ((None, False), c))"

definition ContainsOrAdd ::
  "('k, 'v) lruish \<Rightarrow> 'k \<Rightarrow> 'v \<Rightarrow> ((bool \<times> bool) \<times> ('k, 'v) lruish) option" where
  "ContainsOrAdd c k v = do {
     (found, c) \<leftarrow> Contains c k;
     if found then Some ((True, False), c)
     else do {
       (evicted, c) \<leftarrow> Add c k v;
       Some ((False, evicted), c)
     }
   }"

definition Keys :: "('k, 'v) lruish \<Rightarrow> ('k list \<times> ('k, 'v) lruish) option" where
  "Keys c = Some (map fst (items c), c)"

definition Len :: "('k, 'v) lruish \<Rightarrow> (int \<times> ('k, 'v) lruish) option" where
  "Len c = Some (int (length (items c)), c)"

definition Purge :: "('k, 'v) lruish \<Rightarrow> (unit \<times> ('k, 'v) lruish) option" where
  "Purge c =
     (if size' c < 0 then None
      else Some ((), c\<lparr>items := [], ring := replicate (nat (size' c)) None, head := 0\<rparr>))"

definition Remove :: "('k, 'v) lruish \<Rightarrow> 'k \<Rightarrow> (bool \<times> ('k, 'v) lruish) option" where
  "Remove c k =
     (case map_of (items c) k of
        Some ent \<Rightarrow> do {
          let c = c\<lparr>items := AList.delete k (items c)\<rparr>;
          c \<leftarrow> ring_set c (index (heap c ! ent)) None;
          Some (True, c)
        }
      | None \<Rightarrow> Some (False, c))"

section \<open>Sequences of calls\<close>

text \<open>A client of the engine is a list of calls; a panic ends the run with \<open>None\<close>.\<close>

datatype ('k, 'v) call =
  CallAdd 'k 'v
| CallGet 'k
| CallContains 'k
| CallPeek 'k
| CallContainsOrAdd 'k 'v
| CallRemove 'k
| CallKeys
| CallLen
| CallPurge

datatype ('k, 'v) reply =
  RetBool bool
| RetValue "'v option" bool
| RetBools bool bool
| RetKeys "'k list"
| RetInt int
| RetUnit

fun perform :: "('k, 'v) lruish \<Rightarrow> ('k, 'v) call \<Rightarrow> (('k, 'v) reply \<times> ('k, 'v) lruish) option" where
  "perform c (CallAdd k v) = do { (r, c) \<leftarrow> Add c k v; Some (RetBool r, c) }"
| "perform c (CallGet k) = do { ((v, ok), c) \<leftarrow> Get c k; Some (RetValue v ok, c) }"
| "perform c (CallContains k) = do { (r, c) \<leftarrow> Contains c k; Some (RetBool r, c) }"
| "perform c (CallPeek k) = do { ((v, ok), c) \<leftarrow> Peek c k; Some (RetValue v ok, c) }"
| "perform c (CallContainsOrAdd k v) =
     do { ((ok, ev), c) \<leftarrow> ContainsOrAdd c k v; Some (RetBools ok ev, c) }"
| "perform c (CallRemove k) = do { (r, c) \<leftarrow> Remove c k; Some (RetBool r, c) }"
| "perform c CallKeys = do { (ks, c) \<leftarrow> Keys c; Some (RetKeys ks, c) }"
| "perform c CallLen = do { (n, c) \<leftarrow> Len c; Some (RetInt n, c) }"
| "perform c CallPurge = do { (u, c) \<leftarrow> Purge c; Some (RetUnit, c) }"

fun run :: "('k, 'v) lruish \<Rightarrow> ('k, 'v) call list
    \<Rightarrow> (('k, 'v) reply list \<times> ('k, 'v) lruish) option" where
  "run c [] = Some ([], c)"
| "run c (x # xs) = do { (r, c) \<leftarrow> perform c x; (rs, c) \<leftarrow> run c xs; Some (r # rs, c) }"

text \<open>A whole session: construct a cache of the given size, then run the calls.\<close>

definition session :: "int \<Rightarrow> ('k, 'v) call list
    \<Rightarrow> (('k, 'v) reply list \<times> ('k, 'v) lruish) option" where
  "session n xs = (case NewUnsynched n of Inl e \<Rightarrow> None | Inr c \<Rightarrow> run c xs)"

definition replies :: "int \<Rightarrow> ('k, 'v) call list \<Rightarrow> ('k, 'v) reply list option" where
  "replies n xs = map_option fst (session n xs)"

text \<open>
  The distance of a resident key from the head cursor, walking the ring from the
  newest slot; \<open>None\<close> for a key that is not resident.
\<close>

definition distance :: "('k, 'v) lruish \<Rightarrow> 'k \<Rightarrow> int option" where
  "distance c k =
     (case map_of (items c) k of
        None \<Rightarrow> None
      | Some p \<Rightarrow> Some ((index (heap c ! p) - head c) mod size' c))"

definition distance_after :: "int \<Rightarrow> ('k, 'v) call list \<Rightarrow> 'k \<Rightarrow> int option" where
  "distance_after n xs k = (case session n xs of None \<Rightarrow> None | Some (rs, c) \<Rightarrow> distance c k)"

text \<open>The calls that only observe.\<close>

fun observes :: "('k, 'v) call \<Rightarrow> bool" where
  "observes (CallPeek k) = True"
| "observes (CallContains k) = True"
| "observes x = False"

section \<open>The synchronised wrapper\<close>

text \<open>
  \<^verbatim>\<open>sync.RWMutex\<close> is not reentrant. The model follows one goroutine: \<^verbatim>\<open>Lock\<close> on a
  mutex that is held can only be released by somebody else, and within the call there is
  nobody else, so the caller waits forever. A wrapper method therefore yields \<open>None\<close>
  when it does not return (it waits forever, or panics).
\<close>

record RWMutex =
  writer :: bool
  readers :: nat

definition Lock :: "RWMutex \<Rightarrow> RWMutex option" where
  "Lock m = (if writer m \<or> 0 < readers m then None else Some (m\<lparr>writer := True\<rparr>))"

definition Unlock :: "RWMutex \<Rightarrow> RWMutex option" where
  "Unlock m = (if writer m then Some (m\<lparr>writer := False\<rparr>) else None)"

record ('k, 'v) SynchedLRU =
  lru :: "('k, 'v) lruish"
  lock :: RWMutex

text \<open>
  \<^verbatim>\<open>NewSynched\<close> builds its engine with \<^verbatim>\<open>NewUnsyched\<close>, a name the source file does
  not declare; the model reads it as \<^verbatim>\<open>NewUnsynched\<close>.
\<close>

definition NewSynched :: "int \<Rightarrow> error + ('k, 'v) SynchedLRU" where
  "NewSynched n =
     (case NewUnsynched n of
        Inl err \<Rightarrow> Inl err
      | Inr l \<Rightarrow> Inr \<lparr>lru = l, lock = \<lparr>writer = False, readers = 0\<rparr>\<rparr>)"

text \<open>\<^verbatim>\<open>SynchedLRU.Add\<close> takes the lock and delegates to the engine, as every other method does.\<close>

definition SynchedLRU_Add ::
  "('k, 'v) SynchedLRU \<Rightarrow> 'k \<Rightarrow> 'v \<Rightarrow> (bool \<times> ('k, 'v) SynchedLRU) option" where
  "SynchedLRU_Add c k v = do {
     l \<leftarrow> Lock (lock c);
     let c = c\<lparr>lock := l\<rparr>;
     (r, e) \<leftarrow> Add (lru c) k v;
     let c = c\<lparr>lru := e\<rparr>;
     l \<leftarrow> Unlock (lock c);
     Some (r, c\<lparr>lock := l\<rparr>)
   }"

text \<open>
  \<^verbatim>\<open>SynchedLRU.ContainsOrAdd\<close> takes the lock and calls \<^verbatim>\<open>c.ContainsOrAdd\<close>, that is,
  itself, not \<^verbatim>\<open>c.lru.ContainsOrAdd\<close>.
\<close>

partial_function (option) SynchedLRU_ContainsOrAdd ::
  "('k, 'v) SynchedLRU \<Rightarrow> 'k \<Rightarrow> 'v \<Rightarrow> ((bool \<times> bool) \<times> ('k, 'v) SynchedLRU) option" where
  "SynchedLRU_ContainsOrAdd c k v = do {
     l \<leftarrow> Lock (lock c);
     (r, c) \<leftarrow> SynchedLRU_ContainsOrAdd (c\<lparr>lock := l\<rparr>) k v;
     l \<leftarrow> Unlock (lock c);
     Some (r, c\<lparr>lock := l\<rparr>)
   }"

section \<open>Invariants\<close>


text \<open>
  The full invariant that every operation maintains. Besides the cross-reference it
  says that the slot just behind the head (the next one to be overwritten) holds no
  element of the key index, unless the ring has a single slot.
\<close>

definition well_formed :: "('k, 'v) lruish \<Rightarrow> bool" where
  "well_formed c \<longleftrightarrow>
     0 < size' c \<and> length (ring c) = nat (size' c) \<and> 0 \<le> head c \<and> head c < size' c \<and>
     distinct (map fst (items c)) \<and>
     (\<forall>(k, p) \<in> set (items c).
        p < length (heap c) \<and> key (heap c ! p) = k \<and>
        0 \<le> index (heap c ! p) \<and> index (heap c ! p) < size' c \<and>
        ring c ! nat (index (heap c ! p)) = Some p \<and>
        (1 < size' c \<longrightarrow> index (heap c ! p) \<noteq> (head c - 1) mod size' c)) \<and>
     (\<forall>p. Some p \<in> set (ring c) \<longrightarrow> p < length (heap c))"

text \<open>
  The slot arithmetic of \<^verbatim>\<open>promote\<close> in closed form: the offset of an element from the
  head, and the slot at half that offset.
\<close>

definition position_of :: "('k, 'v) lruish \<Rightarrow> ptr \<Rightarrow> int" where
  "position_of c p = (index (heap c ! p) - head c) mod size' c"

definition new_slot :: "('k, 'v) lruish \<Rightarrow> ptr \<Rightarrow> int" where
  "new_slot c p = (head c + position_of c p div 2) mod size' c"

text \<open>
  The shape of a cache that was only filled by insertions of new keys: the key index
  lists the resident keys from the oldest to the newest, the oldest lies farthest from
  the head, and the slots beyond the resident elements, up to the one behind the head,
  are empty.
\<close>

definition in_order :: "('k, 'v) lruish \<Rightarrow> bool" where
  "in_order c \<longleftrightarrow>
     (\<forall>j < length (items c).
        position_of c (snd (items c ! j)) = int (length (items c)) - 1 - int j) \<and>
     (\<forall>i < length (ring c).
        int (length (items c)) \<le> (int i - head c) mod size' c \<and>
        (int i - head c) mod size' c < size' c - 1 \<longrightarrow> ring c ! i = None)"

section \<open>Example states\<close>

text \<open>
  Two states used to instantiate the theorems below: a ring of two slots after one
  insertion, and a ring of four slots after three insertions.
\<close>

definition demo2 :: "(nat, string) lruish" where
  "demo2 = \<lparr>size' = 2, items = [(1, 0)], head = 1, ring = [None, Some 0],
     heap = [\<lparr>elem_value = ''a'', key = 1, index = 1\<rparr>]\<rparr>"

definition demo4 :: "(nat, string) lruish" where
  "demo4 = \<lparr>size' = 4, items = [(1, 0), (2, 1), (3, 2)], head = 1,
     ring = [None, Some 2, Some 1, Some 0],
     heap = [\<lparr>elem_value = ''a'', key = 1, index = 3\<rparr>,
             \<lparr>elem_value = ''b'', key = 2, index = 2\<rparr>,
             \<lparr>elem_value = ''c'', key = 3, index = 1\<rparr>]\<rparr>"

section \<open>Auxiliary lemmas\<close>

lemma sdiv_nonneg: "0 \<le> (a::int) \<Longrightarrow> 0 < b \<Longrightarrow> a sdiv b = a div b"
  by (simp add: signed_divide_int_def sgn_if)

lemma smod_nonneg: "0 \<le> (a::int) \<Longrightarrow> 0 < b \<Longrightarrow> a smod b = a mod b"
  by (simp add: signed_modulo_int_def sgn_if)

lemma wrap_mod:
  fixes a n :: int
  assumes "0 < n" "- n \<le> a" "a < n"
  shows "(if a < 0 then a + n else a) = a mod n"
proof (cases "a < 0")
  case True
  have "(a + n) mod n = a + n" using assms True by (intro mod_pos_pos_trivial) auto
  moreover have "(a + n) mod n = a mod n" by simp
  ultimately show ?thesis using True by simp
next
  case False
  then show ?thesis using assms by simp
qed

lemma new_slot_range: "0 < size' c \<Longrightarrow> 0 \<le> new_slot c p \<and> new_slot c p < size' c"
  by (simp add: new_slot_def)

lemma ring_set_index [simp]: "ring (set_index c p i) = ring c"
  and head_set_index [simp]: "head (set_index c p i) = head c"
  and size_set_index [simp]: "size' (set_index c p i) = size' c"
  and items_set_index [simp]: "items (set_index c p i) = items c"
  by (simp_all add: set_index_def)

lemma promote_eq:
  assumes "0 < size' c" "length (ring c) = nat (size' c)" "0 \<le> head c" "head c < size' c"
    "0 \<le> index (heap c ! p)" "index (heap c ! p) < size' c"
  shows "promote c p = Some
     ((set_index (case ring c ! nat (new_slot c p) of None \<Rightarrow> c
                  | Some q \<Rightarrow> set_index c q (index (heap c ! p))) p (new_slot c p))
       \<lparr>ring := (ring c)[nat (index (heap c ! p)) := ring c ! nat (new_slot c p),
                        nat (new_slot c p) := ring c ! nat (index (heap c ! p))]\<rparr>)"
proof -
  let ?cur = "index (heap c ! p)"
  let ?pos = "if ?cur - head c < 0 then ?cur - head c + size' c else ?cur - head c"
  have pos: "?pos = position_of c p"
    unfolding position_of_def using assms by (intro wrap_mod) auto
  have pos0: "0 \<le> position_of c p" using assms by (simp add: position_of_def)
  have new: "(head c + ?pos sdiv 2) smod size' c = new_slot c p"
    unfolding pos new_slot_def using assms pos0
    by (simp add: sdiv_nonneg smod_nonneg pos_imp_zdiv_nonneg_iff)
  have r: "0 \<le> new_slot c p" "new_slot c p < int (length (ring c))"
    using assms new_slot_range[of c p] by auto
  have rc: "?cur < int (length (ring c))" using assms by simp
  have [simp]: "ring (case ring c ! nat (new_slot c p) of None \<Rightarrow> c
                  | Some q \<Rightarrow> set_index c q ?cur) = ring c"
    by (simp split: option.split)
  show ?thesis
    unfolding promote_def Let_def new
    using assms r rc by (simp add: ring_at_def ring_set_def)
qed


lemma new_slot_not_tail:
  assumes "1 < size' c"
  shows "new_slot c p \<noteq> (head c - 1) mod size' c"
proof
  let ?n = "size' c"
  let ?q = "position_of c p div 2"
  assume "new_slot c p = (head c - 1) mod ?n"
  then have "?n dvd (head c + ?q) - (head c - 1)"
    unfolding new_slot_def by (simp only: mod_eq_dvd_iff)
  then have d: "?n dvd ?q + 1" by simp
  have "0 \<le> position_of c p" "position_of c p < ?n"
    using assms by (simp_all add: position_of_def)
  then have "0 < ?q + 1" "?q + 1 < ?n" using assms by auto
  with d show False using zdvd_not_zless by blast
qed

lemma wf_live:
  assumes "well_formed c" "map_of (items c) k = Some p"
  shows "p < length (heap c)" "key (heap c ! p) = k" "0 \<le> index (heap c ! p)"
    "index (heap c ! p) < size' c" "ring c ! nat (index (heap c ! p)) = Some p"
    "1 < size' c \<Longrightarrow> index (heap c ! p) \<noteq> (head c - 1) mod size' c"
proof -
  have "(k, p) \<in> set (items c)" using assms(2) by (rule map_of_SomeD)
  with assms(1) show "p < length (heap c)" "key (heap c ! p) = k" "0 \<le> index (heap c ! p)"
    "index (heap c ! p) < size' c" "ring c ! nat (index (heap c ! p)) = Some p"
    "1 < size' c \<Longrightarrow> index (heap c ! p) \<noteq> (head c - 1) mod size' c"
    unfolding well_formed_def by blast+
qed

lemma wf_basic:
  assumes "well_formed c"
  shows "0 < size' c" "length (ring c) = nat (size' c)" "0 \<le> head c" "head c < size' c"
    "distinct (map fst (items c))"
  using assms unfolding well_formed_def by blast+

lemma wf_ring_ptr: "well_formed c \<Longrightarrow> i < length (ring c) \<Longrightarrow> ring c ! i = Some q \<Longrightarrow> q < length (heap c)"
  unfolding well_formed_def by (metis nth_mem)

lemma promote_props:
  assumes "well_formed c" "map_of (items c) k = Some p"
  defines "cur \<equiv> index (heap c ! p)" and "new \<equiv> new_slot c p"
  shows "\<exists>c'. promote c p = Some c' \<and> items c' = items c \<and> head c' = head c \<and>
      size' c' = size' c \<and> length (heap c') = length (heap c) \<and>
      ring c' = (ring c)[nat cur := ring c ! nat new, nat new := ring c ! nat cur] \<and>
      (\<forall>q < length (heap c). key (heap c' ! q) = key (heap c ! q) \<and>
         elem_value (heap c' ! q) = elem_value (heap c ! q) \<and>
         index (heap c' ! q) =
           (if q = p then new else if ring c ! nat new = Some q then cur
            else index (heap c ! q)))"
proof -
  note b = wf_basic[OF assms(1)] and l = wf_live[OF assms(1,2)]
  have eq: "promote c p = Some
     ((set_index (case ring c ! nat new of None \<Rightarrow> c
                  | Some q \<Rightarrow> set_index c q cur) p new)
       \<lparr>ring := (ring c)[nat cur := ring c ! nat new, nat new := ring c ! nat cur]\<rparr>)"
    unfolding cur_def new_def using b l by (intro promote_eq) auto
  show ?thesis
    unfolding eq using l(1)
    by (auto simp: set_index_def split: option.split)
qed


lemma wf_live_mem:
  assumes "well_formed c" "(k, p) \<in> set (items c)"
  shows "map_of (items c) k = Some p"
  using assms(2) wf_basic(5)[OF assms(1)] by simp

lemma promote_wf:
  assumes w: "well_formed c" and m: "map_of (items c) k = Some p" and pr: "promote c p = Some c'"
  shows "well_formed c'"
proof -
  define cur where "cur = index (heap c ! p)"
  define new where "new = new_slot c p"
  note b = wf_basic[OF w] and l = wf_live[OF w m]
  from promote_props[OF w m] pr
  have it: "items c' = items c" and hd: "head c' = head c" and sz: "size' c' = size' c"
    and len: "length (heap c') = length (heap c)"
    and rg: "ring c' = (ring c)[nat cur := ring c ! nat new, nat new := ring c ! nat cur]"
    and hp: "\<And>q. q < length (heap c) \<Longrightarrow> key (heap c' ! q) = key (heap c ! q) \<and>
         index (heap c' ! q) =
           (if q = p then new else if ring c ! nat new = Some q then cur
            else index (heap c ! q))"
    by (auto simp: cur_def new_def)
  have nr: "0 \<le> new" "new < size' c"
    using new_slot_range[of c p] b(1) by (auto simp: new_def)
  have cr: "0 \<le> cur" "cur < size' c" "ring c ! nat cur = Some p"
    using l by (auto simp: cur_def)
  have ln: "nat new < length (ring c)" "nat cur < length (ring c)"
    using nr cr b(2) by auto
  have live: "p' < length (heap c') \<and> key (heap c' ! p') = k' \<and>
        0 \<le> index (heap c' ! p') \<and> index (heap c' ! p') < size' c' \<and>
        ring c' ! nat (index (heap c' ! p')) = Some p' \<and>
        (1 < size' c' \<longrightarrow> index (heap c' ! p') \<noteq> (head c' - 1) mod size' c')"
    if mem: "(k', p') \<in> set (items c')" for k' p'
  proof -
    have m': "map_of (items c) k' = Some p'" using mem w by (simp add: it wf_live_mem)
    note l' = wf_live[OF w m']
    note h' = hp[OF l'(1)]
    consider (self) "p' = p" | (other) "p' \<noteq> p" "ring c ! nat new = Some p'"
      | (rest) "p' \<noteq> p" "ring c ! nat new \<noteq> Some p'" by blast
    then show ?thesis
    proof cases
      case self
      then have i: "index (heap c' ! p') = new" using h' by simp
      have "ring c' ! nat new = Some p" using ln cr by (simp add: rg)
      moreover have "1 < size' c \<Longrightarrow> new \<noteq> (head c - 1) mod size' c"
        unfolding new_def by (rule new_slot_not_tail)
      ultimately show ?thesis using l' h' nr self by (simp add: i len hd sz)
    next
      case other
      then have i: "index (heap c' ! p') = cur" using h' by simp
      have "cur \<noteq> new" using other cr by auto
      then have "nat cur \<noteq> nat new" using nr cr by auto
      then have "ring c' ! nat cur = Some p'" using ln other by (simp add: rg)
      moreover have "1 < size' c \<Longrightarrow> cur \<noteq> (head c - 1) mod size' c"
        using l(6) by (simp add: cur_def)
      ultimately show ?thesis using l' h' cr by (simp add: i len hd sz)
    next
      case rest
      then have i: "index (heap c' ! p') = index (heap c ! p')" using h' by simp
      have "index (heap c ! p') \<noteq> cur" using rest cr l' by auto
      moreover have "index (heap c ! p') \<noteq> new" using rest l' by auto
      ultimately have "nat (index (heap c ! p')) \<noteq> nat cur" "nat (index (heap c ! p')) \<noteq> nat new"
        using nr cr l' by auto
      then have "ring c' ! nat (index (heap c ! p')) = ring c ! nat (index (heap c ! p'))"
        by (simp add: rg)
      then show ?thesis using l' h' by (simp add: i len hd sz)
    qed
  qed
  have ptr: "q < length (heap c')" if "Some q \<in> set (ring c')" for q
  proof -
    from that obtain i where i: "i < length (ring c')" "ring c' ! i = Some q"
      by (auto simp: in_set_conv_nth)
    then have "\<exists>j < length (ring c). ring c ! j = Some q"
      using ln by (auto simp: rg nth_list_update split: if_splits)
    then show ?thesis using wf_ring_ptr[OF w] by (auto simp: len)
  qed
  show ?thesis
    unfolding well_formed_def using b live ptr by (auto simp: it hd sz rg)
qed



lemma nth_set_value:
  "key (hs[p := (hs ! p)\<lparr>elem_value := v\<rparr>] ! q) = key (hs ! q)"
  "index (hs[p := (hs ! p)\<lparr>elem_value := v\<rparr>] ! q) = index (hs ! q)"
proof -
  have "hs[p := (hs ! p)\<lparr>elem_value := v\<rparr>] ! q =
      (if q = p \<and> p < length hs then (hs ! p)\<lparr>elem_value := v\<rparr> else hs ! q)"
    by (cases "p < length hs") (simp_all add: nth_list_update list_update_beyond)
  then show "key (hs[p := (hs ! p)\<lparr>elem_value := v\<rparr>] ! q) = key (hs ! q)"
    "index (hs[p := (hs ! p)\<lparr>elem_value := v\<rparr>] ! q) = index (hs ! q)"
    by simp_all
qed

lemma set_value_wf: "well_formed c \<Longrightarrow> well_formed (set_value c p v)"
  unfolding well_formed_def set_value_def
  by (simp add: nth_set_value)

lemma Add_new_eq:
  assumes w: "well_formed c" and m: "map_of (items c) k = None"
  defines "h \<equiv> (head c - 1) mod size' c"
  defines "t \<equiv> (h - 1) mod size' c"
  shows "Add c k v = Some (True,
     c\<lparr>head := h,
       items := AList.update k (length (heap c))
         (case ring c ! nat t of None \<Rightarrow> items c
          | Some q \<Rightarrow> AList.delete (key (heap c ! q)) (items c)),
       heap := heap c @ [\<lparr>elem_value = v, key = k, index = h\<rparr>],
       ring := (ring c)[nat h := Some (length (heap c))]\<rparr>)"
proof -
  note b = wf_basic[OF w]
  let ?c1 = "c\<lparr>head := head c - 1\<rparr>"
  let ?c2 = "if head ?c1 < 0 then ?c1\<lparr>head := head ?c1 + size' ?c1\<rparr> else ?c1"
  have hh: "h = (if head c - 1 < 0 then head c - 1 + size' c else head c - 1)"
    unfolding h_def using b by (intro wrap_mod[symmetric]) auto
  have c2: "?c2 = c\<lparr>head := h\<rparr>"
    unfolding hh by simp
  have hr: "0 \<le> h" "h < size' c" using b by (simp_all add: h_def)
  let ?c = "c\<lparr>head := h\<rparr>"
  have t0: "(if h - 1 < 0 then h - 1 + size' c else h - 1) = t"
    unfolding t_def using b hr by (intro wrap_mod) auto
  have sel: "head ?c = h" "size' ?c = size' c" by simp_all
  have t: "(if head ?c - 1 < 0 then head ?c - 1 + size' ?c else head ?c - 1) = t"
    unfolding sel by (fact t0)
  have tr: "0 \<le> t" "t < size' c" using b by (simp_all add: t_def)
  have ra: "ring_at ?c t = Some (ring c ! nat t)"
    using tr b(2) by (simp add: ring_at_def)
  show ?thesis
    unfolding Add_def m option.case Let_def c2 t ra
    using hr b(2)
    by (cases "ring c ! nat t") (simp_all add: ring_set_def)
qed

lemma Add_new_wf:
  assumes w: "well_formed c" and m: "map_of (items c) k = None" and a: "Add c k v = Some (r, c')"
  shows "well_formed c'"
proof -
  define h where "h = (head c - 1) mod size' c"
  define t where "t = (h - 1) mod size' c"
  define its where "its = (case ring c ! nat t of None \<Rightarrow> items c
          | Some q \<Rightarrow> AList.delete (key (heap c ! q)) (items c))"
  define ent where "ent = length (heap c)"
  note b = wf_basic[OF w]
  have c': "c' = c\<lparr>head := h, items := AList.update k ent its,
       heap := heap c @ [\<lparr>elem_value = v, key = k, index = h\<rparr>],
       ring := (ring c)[nat h := Some ent]\<rparr>"
    using a Add_new_eq[OF w m, of v] by (simp add: h_def t_def its_def ent_def)
  have hr: "0 \<le> h" "h < size' c" using b by (simp_all add: h_def)
  have tr: "0 \<le> t" "t < size' c" using b by (simp_all add: t_def)
  have dits: "distinct (map fst its)"
    using b(5) by (simp add: its_def distinct_delete split: option.split)
  have sub: "map_of (items c) k' = Some q \<and> (ring c ! nat t \<noteq> Some q)"
    if "map_of its k' = Some q" for k' q
  proof (cases "ring c ! nat t")
    case None
    then show ?thesis using that by (simp add: its_def)
  next
    case (Some d)
    with that have d: "map_of (AList.delete (key (heap c ! d)) (items c)) k' = Some q"
      by (simp add: its_def)
    then have ne: "k' \<noteq> key (heap c ! d)" by (auto simp: AList.delete_conv split: if_splits)
    then have mq: "map_of (items c) k' = Some q" using d by simp
    have "d \<noteq> q" using wf_live(2)[OF w mq] ne by auto
    then show ?thesis using mq Some by simp
  qed
  have ht: "1 < size' c \<Longrightarrow> h \<noteq> t"
  proof
    assume s: "1 < size' c" and "h = t"
    then have "size' c dvd h - (h - 1)" unfolding t_def by (metis mod_eq_dvd_iff mod_mod_trivial hr mod_pos_pos_trivial)
    then show False using s by simp
  qed
  have live: "p' < length (heap c') \<and> key (heap c' ! p') = k' \<and>
        0 \<le> index (heap c' ! p') \<and> index (heap c' ! p') < size' c' \<and>
        ring c' ! nat (index (heap c' ! p')) = Some p' \<and>
        (1 < size' c' \<longrightarrow> index (heap c' ! p') \<noteq> (head c' - 1) mod size' c')"
    if mem: "(k', p') \<in> set (items c')" for k' p'
  proof -
    have "map_of (AList.update k ent its) k' = Some p'"
      using mem dits by (simp add: c' distinct_update)
    then consider (new) "k' = k" "p' = ent" | (old) "k' \<noteq> k" "map_of its k' = Some p'"
      by (auto simp: update_conv' split: if_splits)
    then show ?thesis
    proof cases
      case new
      have "ring c' ! nat h = Some ent" using hr b(2) by (simp add: c')
      then show ?thesis using new hr ht by (simp add: c' ent_def t_def)
    next
      case old
      from sub[OF old(2)] have mq: "map_of (items c) k' = Some p'" and nt: "ring c ! nat t \<noteq> Some p'"
        by auto
      note l = wf_live[OF w mq]
      have it: "index (heap c ! p') \<noteq> t" using nt l(5) by auto
      have ih: "index (heap c ! p') \<noteq> h"
      proof (cases "1 < size' c")
        case True
        then show ?thesis using l(6) by (simp add: h_def)
      next
        case False
        then have "size' c = 1" using b(1) by simp
        then have "t = 0" "index (heap c ! p') = 0" using tr l(3,4) by auto
        then show ?thesis using it by simp
      qed
      then have "nat (index (heap c ! p')) \<noteq> nat h" using hr l(3) by auto
      then have "ring c' ! nat (index (heap c ! p')) = Some p'" using l(5) by (simp add: c')
      then show ?thesis using l it by (simp add: c' nth_append t_def)
    qed
  qed
  have ptr: "q < length (heap c')" if "Some q \<in> set (ring c')" for q
  proof -
    from that have "Some q \<in> insert (Some ent) (set (ring c))"
      using set_update_subset_insert[of "ring c" "nat h" "Some ent"] by (auto simp: c')
    then show ?thesis using w by (auto simp: c' ent_def well_formed_def less_Suc_eq)
  qed
  have d': "distinct (map fst (items c'))" using dits by (simp add: c' distinct_update)
  show ?thesis
    unfolding well_formed_def using b hr live ptr d' by (auto simp: c')
qed

lemma Add_old_wf:
  assumes w: "well_formed c" and m: "map_of (items c) k = Some p"
  shows "\<exists>c'. Add c k v = Some (False, c') \<and> well_formed c' \<and> items c' = items c \<and>
     size' c' = size' c \<and> head c' = head c"
proof -
  from promote_props[OF w m] obtain c1 where p: "promote c p = Some c1"
    and e: "items c1 = items c" "size' c1 = size' c" "head c1 = head c" by blast
  have "well_formed c1" using promote_wf[OF w m p] .
  then have "well_formed (set_value c1 p v)" by (rule set_value_wf)
  then show ?thesis using p e by (simp add: Add_def m set_value_def)
qed

lemma Add_wf:
  assumes w: "well_formed c"
  shows "\<exists>c'. Add c k v = Some (map_of (items c) k = None, c') \<and> well_formed c' \<and>
     size' c' = size' c"
proof (cases "map_of (items c) k")
  case None
  from Add_new_eq[OF w None, of v] obtain c' where a: "Add c k v = Some (True, c')"
    and s: "size' c' = size' c" by simp
  then show ?thesis using Add_new_wf[OF w None a] None by simp
next
  case (Some p)
  then show ?thesis using Add_old_wf[OF w Some, of v] by auto
qed

lemma Get_wf:
  assumes w: "well_formed c"
  shows "\<exists>r c'. Get c k = Some ((r, map_of (items c) k \<noteq> None), c') \<and> well_formed c' \<and>
     size' c' = size' c \<and> items c' = items c \<and> head c' = head c"
proof (cases "map_of (items c) k")
  case None
  then show ?thesis using w by (simp add: Get_def)
next
  case (Some p)
  from promote_props[OF w Some] obtain c1 where p: "promote c p = Some c1"
    and e: "items c1 = items c" "size' c1 = size' c" "head c1 = head c" by blast
  have "well_formed c1" using promote_wf[OF w Some p] .
  then show ?thesis using p e Some by (simp add: Get_def)
qed

lemma Remove_wf:
  assumes w: "well_formed c"
  shows "\<exists>c'. Remove c k = Some (map_of (items c) k \<noteq> None, c') \<and> well_formed c' \<and>
     size' c' = size' c"
proof (cases "map_of (items c) k")
  case None
  then show ?thesis using w by (simp add: Remove_def)
next
  case (Some p)
  note b = wf_basic[OF w] and l = wf_live[OF w Some]
  define c' where "c' = c\<lparr>items := AList.delete k (items c),
      ring := (ring c)[nat (index (heap c ! p)) := None]\<rparr>"
  have r: "Remove c k = Some (True, c')"
    using l b by (simp add: Remove_def Some ring_set_def c'_def)
  have d: "distinct (map fst (items c'))" using b(5) by (simp add: c'_def distinct_delete)
  have live: "p' < length (heap c') \<and> key (heap c' ! p') = k' \<and>
        0 \<le> index (heap c' ! p') \<and> index (heap c' ! p') < size' c' \<and>
        ring c' ! nat (index (heap c' ! p')) = Some p' \<and>
        (1 < size' c' \<longrightarrow> index (heap c' ! p') \<noteq> (head c' - 1) mod size' c')"
    if mem: "(k', p') \<in> set (items c')" for k' p'
  proof -
    have "map_of (AList.delete k (items c)) k' = Some p'"
      using mem d by (simp add: c'_def)
    then have ne: "k' \<noteq> k" and mq: "map_of (items c) k' = Some p'"
      by (auto simp: AList.delete_conv split: if_splits)
    note l' = wf_live[OF w mq]
    have "p' \<noteq> p" using l'(2) l(2) ne by auto
    then have "index (heap c ! p') \<noteq> index (heap c ! p)" using l(5) l'(5) by auto
    then have "nat (index (heap c ! p')) \<noteq> nat (index (heap c ! p))" using l(3) l'(3) by auto
    then show ?thesis using l' by (simp add: c'_def)
  qed
  have ptr: "q < length (heap c')" if "Some q \<in> set (ring c')" for q
  proof -
    from that have "Some q \<in> insert None (set (ring c))"
      using set_update_subset_insert[of "ring c" "nat (index (heap c ! p))" None]
      by (auto simp: c'_def)
    then show ?thesis using w by (auto simp: c'_def well_formed_def)
  qed
  have "well_formed c'"
    unfolding well_formed_def using b live ptr d by (auto simp: c'_def)
  then show ?thesis using r Some by (simp add: c'_def)
qed

lemma Purge_wf:
  assumes w: "well_formed c"
  shows "\<exists>c'. Purge c = Some ((), c') \<and> well_formed c' \<and> size' c' = size' c"
  using w by (simp add: Purge_def well_formed_def)

lemma ContainsOrAdd_wf:
  assumes w: "well_formed c"
  shows "\<exists>r c'. ContainsOrAdd c k v = Some (r, c') \<and> well_formed c' \<and> size' c' = size' c"
proof (cases "map_of (items c) k")
  case None
  then show ?thesis using Add_wf[OF w, of k v] by (auto simp: ContainsOrAdd_def Contains_def)
next
  case (Some p)
  then show ?thesis using w by (auto simp: ContainsOrAdd_def Contains_def)
qed

lemma New_wf: "NewUnsynched n = Inr c \<Longrightarrow> well_formed c \<and> size' c = n"
  by (auto simp: NewUnsynched_def well_formed_def split: if_splits)

lemma perform_wf:
  assumes w: "well_formed c"
  shows "\<exists>r c'. perform c x = Some (r, c') \<and> well_formed c' \<and> size' c' = size' c"
proof (cases x)
  case (CallAdd k v)
  then show ?thesis using Add_wf[OF w, of k v] by auto
next
  case (CallGet k)
  then show ?thesis using Get_wf[OF w, of k] by auto
next
  case (CallContains k)
  then show ?thesis using w by (simp add: Contains_def)
next
  case (CallPeek k)
  then show ?thesis using w by (simp add: Peek_def split: option.split)
next
  case (CallContainsOrAdd k v)
  then show ?thesis using ContainsOrAdd_wf[OF w, of k v] by auto
next
  case (CallRemove k)
  then show ?thesis using Remove_wf[OF w, of k] by auto
next
  case CallKeys
  then show ?thesis using w by (simp add: Keys_def)
next
  case CallLen
  then show ?thesis using w by (simp add: Len_def)
next
  case CallPurge
  then show ?thesis using Purge_wf[OF w] by auto
qed

lemma run_wf:
  "well_formed c \<Longrightarrow> \<exists>rs c'. run c xs = Some (rs, c') \<and> well_formed c' \<and> size' c' = size' c"
proof (induction xs arbitrary: c)
  case Nil
  then show ?case by simp
next
  case (Cons x xs)
  from perform_wf[OF Cons.prems, of x] obtain r c1 where
    p: "perform c x = Some (r, c1)" "well_formed c1" "size' c1 = size' c" by blast
  from Cons.IH[OF p(2)] obtain rs c2 where
    "run c1 xs = Some (rs, c2)" "well_formed c2" "size' c2 = size' c1" by blast
  then show ?case using p by simp
qed

lemma session_wf:
  assumes "session n xs = Some (rs, c)"
  shows "well_formed c \<and> size' c = n"
proof -
  from assms obtain c0 where n: "NewUnsynched n = Inr c0" and r: "run c0 xs = Some (rs, c)"
    by (auto simp: session_def split: sum.splits)
  from New_wf[OF n] run_wf[of c0 xs] r show ?thesis by auto
qed

lemma session_total:
  fixes xs :: "('k, 'v) call list"
  assumes "0 < n"
  shows "\<exists>rs c. session n xs = Some (rs, c)"
proof -
  obtain c0 :: "('k, 'v) lruish" where n: "NewUnsynched n = Inr c0" using assms by (simp add: NewUnsynched_def)
  from New_wf[OF n] run_wf[of c0 xs] show ?thesis by (auto simp: session_def n)
qed

lemma len_bound:
  assumes w: "well_formed c"
  shows "int (length (items c)) \<le> size' c"
    and "1 < size' c \<Longrightarrow> int (length (items c)) < size' c"
proof -
  note b = wf_basic[OF w]
  define f where "f = (\<lambda>(k :: 'a, p). nat (index (heap c ! p)))"
  define S where "S = set (items c)"
  have live: "\<And>k p. (k, p) \<in> S \<Longrightarrow> map_of (items c) k = Some p"
    using wf_live_mem[OF w] by (simp add: S_def)
  have inj: "inj_on f S"
  proof (rule inj_onI)
    fix x y assume x: "x \<in> S" and y: "y \<in> S" and e: "f x = f y"
    obtain k p where xp: "x = (k, p)" by (cases x)
    obtain k' p' where yp: "y = (k', p')" by (cases y)
    note l = wf_live[OF w live[OF x[unfolded xp]]] and l' = wf_live[OF w live[OF y[unfolded yp]]]
    from e have ie: "index (heap c ! p) = index (heap c ! p')"
      using l(3) l'(3) by (simp add: f_def xp yp)
    have "Some p = ring c ! nat (index (heap c ! p))" by (simp only: l(5))
    also have "\<dots> = ring c ! nat (index (heap c ! p'))" by (simp only: ie)
    also have "\<dots> = Some p'" by (simp only: l'(5))
    finally have pp: "p = p'" by (simp only: option.inject)
    have "k = key (heap c ! p)" by (simp only: l(2))
    also have "\<dots> = k'" unfolding pp by (simp only: l'(2))
    finally show "x = y" unfolding xp yp pp by (simp only:)
  qed
  have d: "distinct (items c)" using b(5) by (simp add: distinct_map)
  then have card: "length (items c) = card (f ` S)"
    using inj by (simp add: S_def card_image distinct_card)
  have sub: "f ` S \<subseteq> {..<nat (size' c)}"
  proof
    fix i assume "i \<in> f ` S"
    then obtain k p where m: "(k, p) \<in> S" and i: "i = nat (index (heap c ! p))"
      by (auto simp: f_def)
    from wf_live(3,4)[OF w live[OF m]] show "i \<in> {..<nat (size' c)}" by (simp add: i)
  qed
  then have "card (f ` S) \<le> card {..<nat (size' c)}" by (intro card_mono) auto
  then show "int (length (items c)) \<le> size' c" using b(1) by (simp add: card)
  show "int (length (items c)) < size' c" if s: "1 < size' c"
  proof -
    let ?t = "nat ((head c - 1) mod size' c)"
    have "?t \<notin> f ` S"
    proof
      assume "?t \<in> f ` S"
      then obtain k p where m: "(k, p) \<in> S" and i: "?t = nat (index (heap c ! p))"
        by (auto simp: f_def)
      note l = wf_live[OF w live[OF m]]
      have "0 \<le> (head c - 1) mod size' c" using s by simp
      with i l(3) have "(head c - 1) mod size' c = index (heap c ! p)" by simp
      with l(6)[OF s] show False by simp
    qed
    moreover have "?t \<in> {..<nat (size' c)}" using s by simp
    ultimately have "f ` S \<subset> {..<nat (size' c)}" using sub by blast
    then have "card (f ` S) < card {..<nat (size' c)}" by (intro psubset_card_mono) auto
    then show ?thesis using b(1) by (simp add: card)
  qed
qed


lemma session_demo4:
  "session 4 [CallAdd 1 ''a'', CallAdd 2 ''b'', CallAdd 3 ''c'']
     = Some ([RetBool True, RetBool True, RetBool True], demo4)"
  by code_simp

section \<open>The result of \<^verbatim>\<open>Add\<close>\<close>




section \<open>Filling the cache with new keys\<close>

lemma delete_hd:
  assumes "distinct (map fst xs)" "xs \<noteq> []"
  shows "AList.delete (fst (hd xs)) xs = tl xs"
proof -
  obtain k p ys where xs: "xs = (k, p) # ys" using assms(2) by (cases xs) auto
  then have "k \<notin> fst ` set ys" using assms(1) by auto
  then have "AList.delete k ys = ys"
    by (induction ys) (auto simp: AList.delete_eq)
  then show ?thesis by (simp add: xs)
qed

lemma update_fresh: "k \<notin> fst ` set xs \<Longrightarrow> AList.update k v xs = xs @ [(k, v)]"
  by (induction xs) auto

lemma shift_mod:
  fixes x H n :: int
  shows "(x - (H - 1) mod n) mod n = ((x - H) mod n + 1) mod n"
proof -
  have "(x - (H - 1) mod n) mod n = (x - (H - 1)) mod n" by (rule mod_diff_right_eq)
  also have "\<dots> = ((x - H) + 1) mod n" by (simp add: algebra_simps)
  also have "\<dots> = ((x - H) mod n + 1) mod n" by (rule mod_add_left_eq[symmetric])
  finally show ?thesis .
qed

lemma Add_in_order:
  assumes w: "well_formed c" and o: "in_order c" and s: "1 < size' c"
    and k: "k \<notin> fst ` set (items c)"
  shows "\<exists>c'. Add c k v = Some (True, c') \<and> well_formed c' \<and> in_order c' \<and>
     size' c' = size' c \<and>
     map fst (items c') =
       (if int (length (items c)) = size' c - 1 then tl (map fst (items c))
        else map fst (items c)) @ [k]"
proof -
  define n where "n = size' c"
  define H where "H = head c"
  define L where "L = length (items c)"
  define h where "h = (H - 1) mod n"
  define t where "t = (h - 1) mod n"
  define ent where "ent = length (heap c)"
  define its where "its = (case ring c ! nat t of None \<Rightarrow> items c
          | Some q \<Rightarrow> AList.delete (key (heap c ! q)) (items c))"
  note b = wf_basic[OF w]
  have m: "map_of (items c) k = None" using k by (simp add: map_of_eq_None_iff)
  define c' where "c' = c\<lparr>head := h, items := AList.update k ent its,
       heap := heap c @ [\<lparr>elem_value = v, key = k, index = h\<rparr>],
       ring := (ring c)[nat h := Some ent]\<rparr>"
  have a: "Add c k v = Some (True, c')"
    using Add_new_eq[OF w m, of v] by (simp add: c'_def h_def t_def its_def ent_def n_def H_def)
  have w': "well_formed c'" using Add_new_wf[OF w m a] .
  have hr: "0 \<le> h" "h < n" using b by (simp_all add: h_def n_def)
  have tr: "0 \<le> t" "t < n" using b by (simp_all add: t_def n_def)
  have tpos: "(t - H) mod n = n - 2"
  proof -
    have "(h - H) mod n = (H - 1 - H) mod n" unfolding h_def by (rule mod_diff_left_eq)
    also have "\<dots> = (- 1) mod n" by simp
    also have "\<dots> = n - 1" using s by (simp add: n_def zmod_minus1)
    finally have hH: "(h - H) mod n = n - 1" .
    have "(t - H) mod n = ((h - 1) - H) mod n" unfolding t_def by (rule mod_diff_left_eq)
    also have "\<dots> = ((h - H) - 1) mod n" by (simp add: algebra_simps)
    also have "\<dots> = ((h - H) mod n - 1) mod n" by (rule mod_diff_left_eq[symmetric])
    also have "\<dots> = (n - 2) mod n" by (simp add: hH)
    also have "\<dots> = n - 2" using s by (intro mod_pos_pos_trivial) (simp_all add: n_def)
    finally show ?thesis .
  qed
  have Lb: "int L < n" using len_bound(2)[OF w s] by (simp add: L_def n_def)
  have pos: "\<And>j. j < L \<Longrightarrow> position_of c (snd (items c ! j)) = int L - 1 - int j"
    using o by (simp add: in_order_def L_def)
  have live: "\<And>j. j < L \<Longrightarrow> map_of (items c) (fst (items c ! j)) = Some (snd (items c ! j))"
    using wf_live_mem[OF w] by (simp add: L_def)
  show ?thesis
  proof (cases "int L = n - 1")
    case True
    then have ne: "items c \<noteq> []" using s by (auto simp: L_def n_def)
    then have L0: "0 < L" by (simp add: L_def)
    define p0 where "p0 = snd (items c ! 0)"
    note l0 = wf_live[OF w live[OF L0], folded p0_def]
    have "position_of c p0 = n - 2" using pos[OF L0] True by (simp add: p0_def)
    then have "(index (heap c ! p0) - H) mod n = n - 2"
      by (simp add: position_of_def H_def n_def)
    then have "(index (heap c ! p0) - H) mod n = (t - H) mod n"
      by (simp only: tpos)
    then have "n dvd (index (heap c ! p0) - H) - (t - H)"
      by (simp only: mod_eq_dvd_iff)
    then have "n dvd index (heap c ! p0) - t" by simp
    then have "index (heap c ! p0) mod n = t mod n"
      by (simp only: mod_eq_dvd_iff)
    then have "index (heap c ! p0) = t" using l0(3,4) tr by (simp add: n_def)
    then have rt: "ring c ! nat t = Some p0" using l0(5) by simp
    have k0: "key (heap c ! p0) = fst (hd (items c))" using l0(2) ne by (simp add: hd_conv_nth)
    have its: "its = tl (items c)"
      by (simp add: its_def rt k0 delete_hd[OF b(5) ne])
    have kt: "k \<notin> fst ` set (tl (items c))" using k ne by (auto dest: list.set_sel(2))
    have it': "items c' = tl (items c) @ [(k, ent)]"
      by (simp add: c'_def its update_fresh[OF kt])
    have len': "length (items c') = L" using ne by (simp add: it' L_def)
    have 1: "position_of c' (snd (items c' ! j)) = int (length (items c')) - 1 - int j"
      if j: "j < length (items c')" for j
    proof (cases "j < L - 1")
      case True
      then have e: "items c' ! j = items c ! Suc j" using ne
        by (simp add: it' nth_append L_def nth_tl)
      have sj: "Suc j < L" using True by simp
      note l = wf_live[OF w live[OF sj]]
      have "position_of c' (snd (items c ! Suc j)) =
          (index (heap c ! snd (items c ! Suc j)) - h) mod n"
        using l(1) by (simp add: position_of_def c'_def nth_append n_def)
      also have "\<dots> = (position_of c (snd (items c ! Suc j)) + 1) mod n"
        unfolding h_def position_of_def H_def n_def by (rule shift_mod)
      also have "\<dots> = (int L - 1 - int (Suc j) + 1) mod n" by (simp only: pos[OF sj])
      also have "\<dots> = int L - 1 - int j" using Lb sj by simp
      finally show ?thesis by (simp add: e len')
    next
      case False
      then have jl: "j = L - 1" using j len' by simp
      then have e: "items c' ! j = (k, ent)" using ne by (simp add: it' nth_append L_def)
      have pz: "position_of c' ent = 0" using hr by (simp add: position_of_def c'_def ent_def)
      have sn: "snd (items c' ! j) = ent" by (simp only: e snd_conv)
      have z: "int (length (items c')) - 1 - int j = 0" using jl L0 len' by simp
      show ?thesis unfolding sn z by (rule pz)
    qed
    have 2: "ring c' ! i = None"
      if "int (length (items c')) \<le> (int i - head c') mod size' c'"
        "(int i - head c') mod size' c' < size' c' - 1" for i
    proof -
      have "size' c' = n" by (simp add: c'_def n_def)
      with that True len' show ?thesis by simp
    qed
    have "in_order c'" unfolding in_order_def using 1 2 by blast
    moreover have "map fst (items c') = tl (map fst (items c)) @ [k]"
      by (simp add: it' map_tl)
    ultimately show ?thesis using a w' True by (simp add: c'_def L_def n_def)
  next
    case False
    then have Ls: "int L < n - 1" using Lb by simp
    have tl: "nat t < length (ring c)" using tr b(2) by (simp add: n_def)
    have "ring c ! nat t = None"
      using o tl tpos Ls tr unfolding in_order_def
      by (simp add: L_def[symmetric] H_def[symmetric] n_def[symmetric])
    then have its: "its = items c" by (simp add: its_def)
    have it': "items c' = items c @ [(k, ent)]"
      by (simp add: c'_def its update_fresh[OF k])
    have len': "length (items c') = Suc L" by (simp add: it' L_def)
    have 1: "position_of c' (snd (items c' ! j)) = int (length (items c')) - 1 - int j"
      if j: "j < length (items c')" for j
    proof (cases "j < L")
      case True
      then have e: "items c' ! j = items c ! j" by (simp add: it' nth_append L_def)
      note l = wf_live[OF w live[OF True]]
      have "position_of c' (snd (items c ! j)) =
          (index (heap c ! snd (items c ! j)) - h) mod n"
        using l(1) by (simp add: position_of_def c'_def nth_append n_def)
      also have "\<dots> = (position_of c (snd (items c ! j)) + 1) mod n"
        unfolding h_def position_of_def H_def n_def by (rule shift_mod)
      also have "\<dots> = (int L - 1 - int j + 1) mod n" by (simp only: pos[OF True])
      also have "\<dots> = int L - int j" using Lb True by simp
      finally show ?thesis by (simp add: e len')
    next
      case False
      then have jl: "j = L" using j len' by simp
      then have e: "items c' ! j = (k, ent)" by (simp add: it' nth_append L_def)
      have pz: "position_of c' ent = 0" using hr by (simp add: position_of_def c'_def ent_def)
      have sn: "snd (items c' ! j) = ent" by (simp only: e snd_conv)
      have z: "int (length (items c')) - 1 - int j = 0" using jl len' by simp
      show ?thesis unfolding sn z by (rule pz)
    qed
    have 2: "ring c' ! i = None"
      if il: "i < length (ring c')"
        and lo: "int (length (items c')) \<le> (int i - head c') mod size' c'"
        and hi: "(int i - head c') mod size' c' < size' c' - 1" for i
    proof -
      define d where "d = (int i - H) mod n"
      have dr: "0 \<le> d" "d < n" using s by (simp_all add: d_def n_def)
      have e: "(int i - head c') mod size' c' = (d + 1) mod n"
        unfolding d_def by (simp add: c'_def h_def shift_mod n_def)
      have dn: "d \<noteq> n - 1"
      proof
        assume "d = n - 1"
        then have "(d + 1) mod n = 0" by simp
        with lo e len' show False by simp
      qed
      then have e2: "(d + 1) mod n = d + 1" using dr by simp
      have "int L \<le> d" "d < n - 1" using lo hi e e2 len' dn dr by (simp_all add: c'_def n_def)
      then have old: "ring c ! i = None"
        using o il unfolding in_order_def
        by (simp add: L_def[symmetric] H_def[symmetric] n_def[symmetric] d_def c'_def)
      have "int i \<noteq> h"
      proof
        assume "int i = h"
        then have "(int i - head c') mod size' c' = 0" by (simp add: c'_def)
        with lo len' show False by simp
      qed
      then have "i \<noteq> nat h" using hr by auto
      then show ?thesis using old by (simp add: c'_def)
    qed
    have "in_order c'" unfolding in_order_def using 1 2 by blast
    moreover have "map fst (items c') = map fst (items c) @ [k]" by (simp add: it')
    ultimately show ?thesis using a w' False by (simp add: c'_def L_def n_def)
  qed
qed

lemma last_keys_step:
  assumes "length K \<le> m" 
  shows "drop (length (K @ k # ks) - m) (K @ k # ks) =
     drop (length (((if length K = m then tl K else K) @ [k]) @ ks) - m)
       (((if length K = m then tl K else K) @ [k]) @ ks)"
proof (cases "length K = m")
  case True
  show ?thesis
  proof (cases K)
    case Nil
    then show ?thesis using True by simp
  next
    case (Cons a K')
    have m: "m = Suc (length K')" using True Cons by simp
    have 1: "length (K @ k # ks) - m = Suc (length ks)" using m Cons by simp
    have 2: "length ((K' @ [k]) @ ks) - m = length ks" using m by simp
    have 3: "(if length K = m then tl K else K) = K'" using True Cons by simp
    have "drop (Suc (length ks)) (K @ k # ks) = drop (length ks) ((K' @ [k]) @ ks)"
      by (simp add: Cons del: drop_append)
    then show ?thesis by (simp only: 1 2 3)
  qed
next
  case False
  then show ?thesis by simp
qed

lemma adds_in_order:
  fixes kvs :: "('k \<times> 'v) list"
  shows "well_formed c \<Longrightarrow> in_order c \<Longrightarrow> 1 < size' c \<Longrightarrow> distinct (map fst kvs) \<Longrightarrow>
     fst ` set kvs \<inter> fst ` set (items c) = {} \<Longrightarrow>
     \<exists>c'. run c (map (\<lambda>(k, v). CallAdd k v) kvs) = Some (replicate (length kvs) (RetBool True), c')
       \<and> map fst (items c') =
           drop (length (map fst (items c) @ map fst kvs) - nat (size' c - 1))
             (map fst (items c) @ map fst kvs)"
proof (induction kvs arbitrary: c)
  case Nil
  have "int (length (items c)) < size' c" using len_bound(2)[OF Nil(1) Nil(3)] .
  then show ?case by simp
next
  case (Cons kv kvs)
  obtain k v where kv: "kv = (k, v)" by (cases kv)
  have kf: "k \<notin> fst ` set (items c)" using Cons.prems(5) by (auto simp: kv)
  from Add_in_order[OF Cons.prems(1,2,3) kf, of v] obtain c1
    where a: "Add c k v = Some (True, c1)" and w1: "well_formed c1" and o1: "in_order c1"
      and s1: "size' c1 = size' c"
      and k1: "map fst (items c1) =
       (if int (length (items c)) = size' c - 1 then tl (map fst (items c))
        else map fst (items c)) @ [k]" by blast
  have sub: "fst ` set (items c1) \<subseteq> insert k (fst ` set (items c))"
  proof -
    have "set (tl (map fst (items c))) \<subseteq> set (map fst (items c))"
      by (cases "map fst (items c)") auto
    then have "set (map fst (items c1)) \<subseteq> insert k (set (map fst (items c)))"
      unfolding k1 by auto
    then show ?thesis by simp
  qed
  have d: "distinct (map fst kvs)" using Cons.prems(4) by simp
  have dj: "fst ` set kvs \<inter> fst ` set (items c1) = {}"
  proof (rule ccontr)
    assume "fst ` set kvs \<inter> fst ` set (items c1) \<noteq> {}"
    then obtain x where x: "x \<in> fst ` set kvs" "x \<in> fst ` set (items c1)" by blast
    from x(2) sub have "x = k \<or> x \<in> fst ` set (items c)" by blast
    moreover have "k \<notin> fst ` set kvs" using Cons.prems(4) by (simp add: kv)
    moreover have "x \<notin> fst ` set (items c)" using x(1) Cons.prems(5) by (auto simp: kv)
    ultimately show False using x(1) by blast
  qed
  from Cons.IH[OF w1 o1 _ d dj] Cons.prems(3) s1 obtain c2
    where r: "run c1 (map (\<lambda>(k, v). CallAdd k v) kvs)
        = Some (replicate (length kvs) (RetBool True), c2)"
      and k2: "map fst (items c2) =
           drop (length (map fst (items c1) @ map fst kvs) - nat (size' c - 1))
             (map fst (items c1) @ map fst kvs)" by auto
  have lb: "length (map fst (items c)) \<le> nat (size' c - 1)"
    using len_bound(2)[OF Cons.prems(1,3)] by simp
  have c: "(int (length (items c)) = size' c - 1) = (length (map fst (items c)) = nat (size' c - 1))"
    using Cons.prems(3) by auto
  have "map fst (items c2) =
      drop (length (map fst (items c) @ k # map fst kvs) - nat (size' c - 1))
        (map fst (items c) @ k # map fst kvs)"
    unfolding k2 k1 c by (rule last_keys_step[OF lb, symmetric])
  then show ?case using a r by (simp add: kv)
qed

lemma New_in_order: "NewUnsynched n = Inr c \<Longrightarrow> in_order c"
  by (auto simp: NewUnsynched_def in_order_def split: if_splits)

lemma fresh_adds:
  fixes kvs :: "('k \<times> 'v) list"
  assumes "2 \<le> n" and "distinct (map fst kvs)"
  shows "\<exists>c. session n (map (\<lambda>(k, v). CallAdd k v) kvs)
         = Some (replicate (length kvs) (RetBool True), c) \<and>
       map fst (items c) = drop (length kvs - nat (n - 1)) (map fst kvs)"
proof -
  obtain c0 :: "('k, 'v) lruish" where n: "NewUnsynched n = Inr c0"
    using assms(1) by (simp add: NewUnsynched_def)
  have i: "items c0 = []" "size' c0 = n" using n by (auto simp: NewUnsynched_def split: if_splits)
  from adds_in_order[OF _ New_in_order[OF n] _ assms(2), of ] New_wf[OF n] assms(1) i
  show ?thesis by (simp add: session_def n)
qed

lemma run_append:
  "run c (xs @ ys) =
     (case run c xs of None \<Rightarrow> None
      | Some (rs, c') \<Rightarrow> map_option (\<lambda>(rs', c''). (rs @ rs', c'')) (run c' ys))"
proof (induction xs arbitrary: c)
  case Nil
  show ?case by (cases "run c ys") auto
next
  case (Cons x xs)
  show ?case
  proof (cases "perform c x")
    case None
    then show ?thesis by simp
  next
    case (Some a)
    obtain r c1 where a: "a = (r, c1)" by (cases a)
    show ?thesis
    proof (cases "run c1 xs")
      case None
      then show ?thesis using Some Cons.IH[of c1] by (simp add: a)
    next
      case (Some b)
      obtain rs c2 where b: "b = (rs, c2)" by (cases b)
      show ?thesis using \<open>perform c x = Some a\<close> Some Cons.IH[of c1]
        by (cases "run c2 ys") (auto simp: a b)
    qed
  qed
qed

section \<open>The scenarios of the specification\<close>

lemma scenario_2:
  "replies 2 [CallAdd (1::nat) ''a'', CallAdd 2 ''b'', CallAdd 3 ''c'',
              CallContains 1, CallContains 2, CallContains 3, CallLen]
   = Some [RetBool True, RetBool True, RetBool True,
           RetBool False, RetBool False, RetBool True, RetInt 1]"
  by code_simp

lemma scenario_128:
  "replies 128 (map (\<lambda>i. CallAdd i ()) [0..<256] @ [CallLen, CallContains 0, CallContains 255])
   = Some (replicate 256 (RetBool True) @ [RetInt 127, RetBool False, RetBool True])"
proof -
  define kvs where "kvs = map (\<lambda>i::nat. (i, ())) [0..<256]"
  have m: "map (\<lambda>i. CallAdd i ()) [0..<256] = map (\<lambda>(k, v). CallAdd k v) kvs"
    by (simp add: kvs_def)
  have d: "distinct (map fst kvs)" by (simp add: kvs_def o_def)
  from fresh_adds[of 128 kvs, OF _ d] obtain c where
    s: "session 128 (map (\<lambda>(k, v). CallAdd k v) kvs) = Some (replicate (length kvs) (RetBool True), c)"
    and k: "map fst (items c) = drop (length kvs - nat (128 - 1)) (map fst kvs)" by auto
  have l: "length kvs = 256" by (simp add: kvs_def)
  have k': "map fst (items c) = [129..<256]"
    unfolding k l by (simp add: kvs_def o_def drop_map)
  have len: "length (items c) = 127" using arg_cong[OF k', of length] by simp
  have dom: "\<And>x. (map_of (items c) x \<noteq> None) = (x \<in> set [129..<256])"
    unfolding k'[symmetric] by (simp add: map_of_eq_None_iff)
  obtain c0 :: "(nat, unit) lruish" where n: "NewUnsynched 128 = Inr c0"
    by (simp add: NewUnsynched_def)
  have r: "run c0 (map (\<lambda>(k, v). CallAdd k v) kvs) = Some (replicate 256 (RetBool True), c)"
    using s by (simp add: session_def n l)
  have c0: "Contains c 0 = Some (False, c)" using dom[of 0] by (simp add: Contains_def)
  have c255: "Contains c 255 = Some (True, c)" using dom[of 255] by (simp add: Contains_def)
  have ln: "Len c = Some (127, c)" by (simp add: Len_def len)
  show ?thesis
    unfolding replies_def session_def m n by (simp add: run_append r ln c0 c255)
qed

text \<open>
  Claim C2 at its two scenarios. Capacity 2, then \<^verbatim>\<open>Add\<close> of the keys 1, 2, 3: the code
  answers \<open>Contains 2 = False\<close> and \<open>Len = 1\<close>, where the claim expects \<open>True\<close> and 2.
  Capacity 128, then \<^verbatim>\<open>Add\<close> of the keys 0 to 255: the code answers \<open>Len = 127\<close>, where
  the claim expects 128. Inserting a key deletes from the key index the element in the
  slot behind the new head, not the one the insertion overwrites, so only
  capacity - 1 keys stay resident (lemma \<open>fresh_adds\<close> for every capacity from 2).
\<close>

theorem scenarios_on_the_code:
  "replies 2 [CallAdd (1::nat) ''a'', CallAdd 2 ''b'', CallAdd 3 ''c'',
              CallContains 1, CallContains 2, CallContains 3, CallLen]
   = Some [RetBool True, RetBool True, RetBool True,
           RetBool False, RetBool False, RetBool True, RetInt 1] \<and>
   replies 128 (map (\<lambda>i. CallAdd i ()) [0..<256] @ [CallLen, CallContains 0, CallContains 255])
   = Some (replicate 256 (RetBool True) @ [RetInt 127, RetBool False, RetBool True])"
  using scenario_2 scenario_128 by (rule conjI)

section \<open>The wrapper's \<^verbatim>\<open>ContainsOrAdd\<close>\<close>

lemma SynchedLRU_Add_returns:
  assumes "NewSynched n = Inr w"
  shows "\<exists>r w'. SynchedLRU_Add w k v = Some (r, w')"
proof -
  from assms obtain l where n: "NewUnsynched n = Inr l"
    and w: "w = \<lparr>lru = l, lock = \<lparr>writer = False, readers = 0\<rparr>\<rparr>"
    by (auto simp: NewSynched_def split: sum.splits)
  from New_wf[OF n] Add_wf[of l k v] obtain b c' where "Add l k v = Some (b, c')" by blast
  then show ?thesis by (simp add: SynchedLRU_Add_def w Lock_def Unlock_def)
qed

text \<open>
  Claim C3 fails on the code: \<^verbatim>\<open>SynchedLRU.ContainsOrAdd\<close> never returns, in any state
  and for any key. It takes the write lock and calls itself; the inner call waits for
  the lock its caller holds. The engine's \<^verbatim>\<open>ContainsOrAdd\<close> returns in every reachable
  state (lemma \<open>ContainsOrAdd_wf\<close>), and the wrapper's \<^verbatim>\<open>Add\<close>, which delegates to the
  engine, returns as well (lemma \<open>SynchedLRU_Add_returns\<close>), so the two do not agree.
\<close>

theorem SynchedLRU_ContainsOrAdd_never_returns:
  "SynchedLRU_ContainsOrAdd c k v = None"
  by (subst SynchedLRU_ContainsOrAdd.simps, subst SynchedLRU_ContainsOrAdd.simps)
     (simp add: Lock_def split: Option.bind_split)

section \<open>The cross-reference invariant\<close>




section \<open>The length of the cache\<close>





section \<open>\<^verbatim>\<open>Peek\<close> and \<^verbatim>\<open>Contains\<close> change nothing\<close>

lemma perform_observes:
  "observes x \<Longrightarrow> \<exists>r. perform c x = Some (r, c)"
  by (cases x) (auto simp: Peek_def Contains_def split: option.split)

text \<open>
  Claim C8: \<^verbatim>\<open>Peek\<close> and \<^verbatim>\<open>Contains\<close> return the state they were given (key index,
  ring, head cursor and elements), for every state and key. Hence a sequence of calls
  with \<^verbatim>\<open>Peek\<close> and \<^verbatim>\<open>Contains\<close> calls interleaved ends in the same state, and gives the
  other calls the same replies, as the sequence without them; in particular the same
  elements are evicted.
\<close>

theorem observers_leave_state:
  "(\<exists>r. Peek c k = Some (r, c)) \<and> (\<exists>b. Contains c k = Some (b, c)) \<and>
   run c (filter (\<lambda>x. \<not> observes x) xs) =
     map_option (\<lambda>(rs, c'). (map snd (filter (\<lambda>(x, r). \<not> observes x) (zip xs rs)), c'))
       (run c xs)"
proof (intro conjI)
  show "\<exists>r. Peek c k = Some (r, c)" by (cases "map_of (items c) k") (auto simp: Peek_def)
  show "\<exists>b. Contains c k = Some (b, c)" by (simp add: Contains_def)
  show "run c (filter (\<lambda>x. \<not> observes x) xs) =
     map_option (\<lambda>(rs, c'). (map snd (filter (\<lambda>(x, r). \<not> observes x) (zip xs rs)), c'))
       (run c xs)"
  proof (induction xs arbitrary: c)
    case Nil
    then show ?case by simp
  next
    case (Cons x xs)
    show ?case
    proof (cases "observes x")
      case True
      from perform_observes[OF this, of c] obtain r where "perform c x = Some (r, c)" ..
      then show ?thesis using True Cons.IH[of c]
        by (cases "run c xs") (auto)
    next
      case False
      show ?thesis
      proof (cases "perform c x")
        case None
        then show ?thesis using False by simp
      next
        case (Some a)
        obtain r c1 where a: "a = (r, c1)" by (cases a)
        show ?thesis using False Some Cons.IH[of c1]
          by (cases "run c1 xs") (auto simp: a)
      qed
    qed
  qed
qed

text \<open>Claim C8, the theorem at the four-slot example state.\<close>

theorem observers_leave_state_witness:
  "(\<exists>r. Peek demo4 1 = Some (r, demo4)) \<and> (\<exists>b. Contains demo4 1 = Some (b, demo4)) \<and>
   run demo4 (filter (\<lambda>x. \<not> observes x)
       [CallPeek (1::nat), CallAdd 4 ''d'', CallContains 2, CallPeek 3, CallAdd 5 ''e'']) =
     map_option (\<lambda>(rs, c'). (map snd (filter (\<lambda>(x, r). \<not> observes x)
         (zip [CallPeek (1::nat), CallAdd 4 ''d'', CallContains 2, CallPeek 3,
               CallAdd 5 ''e''] rs)), c'))
       (run demo4 [CallPeek 1, CallAdd 4 ''d'', CallContains 2, CallPeek 3, CallAdd 5 ''e''])"
  by (rule observers_leave_state)

section \<open>Promotion\<close>

lemma Get_distance:
  assumes w: "well_formed c" and d: "distance c k = Some d"
  shows "\<exists>r c'. Get c k = Some (r, c') \<and> well_formed c' \<and> distance c' k = Some (d div 2)"
proof -
  from d obtain p where m: "map_of (items c) k = Some p" and dp: "d = position_of c p"
    by (auto simp: distance_def position_of_def split: option.splits)
  note b = wf_basic[OF w] and l = wf_live[OF w m]
  from promote_props[OF w m] l(1) obtain c1 where p: "promote c p = Some c1"
    and e: "items c1 = items c" "size' c1 = size' c" "head c1 = head c"
    and i: "index (heap c1 ! p) = new_slot c p" by auto
  have w1: "well_formed c1" using promote_wf[OF w m p] .
  have r: "0 \<le> d" "d < size' c" using b by (simp_all add: dp position_of_def)
  then have r2: "0 \<le> d div 2" "d div 2 < size' c" by auto
  have "(new_slot c p - head c) mod size' c = (head c + d div 2 - head c) mod size' c"
    unfolding new_slot_def dp[symmetric] by (rule mod_diff_left_eq)
  also have "\<dots> = d div 2" using r2 by simp
  finally have "distance c1 k = Some (d div 2)" by (simp add: distance_def e m i)
  then show ?thesis using p w1 by (auto simp: Get_def m)
qed

lemma gets_distance:
  "well_formed c \<Longrightarrow> distance c k = Some d \<Longrightarrow>
   \<exists>rs c'. run c (replicate j (CallGet k)) = Some (rs, c') \<and> well_formed c' \<and>
     distance c' k = Some (d div 2 ^ j)"
proof (induction j arbitrary: c d)
  case 0
  then show ?case by simp
next
  case (Suc j)
  from Get_distance[OF Suc.prems] obtain r c1 where g: "Get c k = Some (r, c1)"
    and w1: "well_formed c1" and d1: "distance c1 k = Some (d div 2)" by blast
  from Suc.IH[OF w1 d1] obtain rs c2 where r2: "run c1 (replicate j (CallGet k)) = Some (rs, c2)"
    and w2: "well_formed c2" and d2: "distance c2 k = Some (d div 2 div 2 ^ j)" by blast
  have "d div 2 div 2 ^ j = d div 2 ^ Suc j" by (simp add: zdiv_zmult2_eq)
  then show ?case using g r2 w2 d2 by (cases r) simp
qed

lemma below_power: 
  assumes "0 < (d::int)"
  shows "d < 2 ^ (nat \<lfloor>log 2 (real_of_int d)\<rfloor> + 1)"
proof -
  have "0 < nat d" using assms by simp
  from floorlog_bounds[OF this, of 2] have "nat d < 2 ^ floorlog 2 (nat d)" by simp
  moreover have "floorlog 2 (nat d) = nat \<lfloor>log 2 (real_of_int d)\<rfloor> + 1"
    using assms by (simp add: floorlog_def)
  ultimately have "nat d < 2 ^ (nat \<lfloor>log 2 (real_of_int d)\<rfloor> + 1)" by simp
  then show ?thesis using assms by (metis nat_less_iff of_nat_numeral of_nat_power order_less_imp_le zless_nat_conj nat_int of_nat_less_iff int_nat_eq)
qed

text \<open>
  Claim C4, as the code has it: each \<^verbatim>\<open>Get\<close> halves the distance of its key from the
  head (rounding down), so for a resident key at distance \<open>d > 0\<close> in a reachable state,
  \<open>\<lfloor>log\<^sub>2 d\<rfloor> + 1\<close> consecutive \<^verbatim>\<open>Get\<close> calls on the key bring its distance to 0.
  This number equals \<open>\<lceil>log\<^sub>2 d\<rceil>\<close> unless \<open>d\<close> is a power of two.
\<close>

theorem gets_reach_head:
  assumes "session n xs = Some (rs, c)" and "distance c k = Some d" and "0 < d"
  shows "\<exists>rs' c'. run c (replicate (nat \<lfloor>log 2 (real_of_int d)\<rfloor> + 1) (CallGet k)) = Some (rs', c')
     \<and> distance c' k = Some 0"
proof -
  have w: "well_formed c" using session_wf[OF assms(1)] by simp
  have "d div 2 ^ (nat \<lfloor>log 2 (real_of_int d)\<rfloor> + 1) = 0"
    using below_power[OF assms(3)] assms(3) by (intro div_pos_pos_trivial) auto
  with gets_distance[OF w assms(2), of "nat \<lfloor>log 2 (real_of_int d)\<rfloor> + 1"]
  show ?thesis by auto
qed

lemma distance_demo4: "distance demo4 1 = Some 2"
  by code_simp

text \<open>
  Claim C4, the theorem at the four-slot example state: key 1 is at distance 2 and
  reaches the head after two \<^verbatim>\<open>Get\<close> calls.
\<close>

theorem gets_reach_head_witness:
  "session 4 [CallAdd 1 ''a'', CallAdd 2 ''b'', CallAdd 3 ''c'']
     = Some ([RetBool True, RetBool True, RetBool True], demo4) \<and>
   distance demo4 1 = Some 2 \<and> (0::int) < 2 \<and>
   (\<exists>rs' c'. run demo4 (replicate 2 (CallGet 1)) = Some (rs', c') \<and> distance c' 1 = Some 0)"
proof -
  have e: "nat \<lfloor>log 2 (real_of_int 2)\<rfloor> + 1 = 2" by simp
  have h: "(0::int) < 2" by simp
  note t = gets_reach_head[OF session_demo4 distance_demo4 h, unfolded e]
  show ?thesis by (rule conjI[OF session_demo4 conjI[OF distance_demo4 conjI[OF h t]]])
qed

text \<open>
  Claim C4 as stated fails at a power of two: after three insertions into four slots
  key 1 is at distance 2, and after \<open>\<lceil>log\<^sub>2 2\<rceil> = 1\<close> \<^verbatim>\<open>Get\<close> its distance is 1, not 0.
\<close>

theorem ceil_log2_gets_do_not_reach_head:
  "distance_after 4 [CallAdd (1::nat) ''a'', CallAdd 2 ''b'', CallAdd 3 ''c''] 1 = Some 2 \<and>
   distance_after 4 ([CallAdd (1::nat) ''a'', CallAdd 2 ''b'', CallAdd 3 ''c'']
      @ replicate (nat \<lceil>log 2 2\<rceil>) (CallGet 1)) 1 = Some 1"
proof -
  have "nat \<lceil>log 2 (2::real)\<rceil> = 1" by simp
  moreover have "distance_after 4 [CallAdd (1::nat) ''a'', CallAdd 2 ''b'', CallAdd 3 ''c''] 1 = Some 2"
    by code_simp
  moreover have "distance_after 4 ([CallAdd (1::nat) ''a'', CallAdd 2 ''b'', CallAdd 3 ''c'']
      @ replicate 1 (CallGet 1)) 1 = Some 1"
    by code_simp
  ultimately show ?thesis by simp
qed

text \<open>
  Claim C5: for a resident element \<open>p\<close> at slot \<open>cur\<close> in a reachable state,
  \<^verbatim>\<open>promote\<close> returns; with \<open>position = (cur - head) mod size\<close> and
  \<open>newSlot = (head + position div 2) mod size\<close> (floor division) the new ring is the old
  one with the contents of \<open>cur\<close> and \<open>newSlot\<close> exchanged, the promoted element records
  \<open>newSlot\<close>, a different resident element that was at \<open>newSlot\<close> records \<open>cur\<close>, every
  other resident element keeps its slot, all keep their key and value, and the key
  index is unchanged: nothing is removed.
\<close>

theorem promote_follows_algorithm:
  assumes "session n xs = Some (rs, c)" and "map_of (items c) k = Some p"
  shows "let cur = index (heap c ! p);
             position = (cur - head c) mod size' c;
             newSlot = (head c + position div 2) mod size' c
         in \<exists>c'. promote c p = Some c' \<and>
              ring c' = (ring c)[nat cur := ring c ! nat newSlot, nat newSlot := ring c ! nat cur] \<and>
              index (heap c' ! p) = newSlot \<and>
              (\<forall>k' q. map_of (items c) k' = Some q \<and> q \<noteq> p \<and> ring c ! nat newSlot = Some q
                 \<longrightarrow> index (heap c' ! q) = cur) \<and>
              (\<forall>k' q. map_of (items c) k' = Some q \<and> q \<noteq> p \<and> ring c ! nat newSlot \<noteq> Some q
                 \<longrightarrow> index (heap c' ! q) = index (heap c ! q)) \<and>
              (\<forall>k' q. map_of (items c) k' = Some q
                 \<longrightarrow> key (heap c' ! q) = k' \<and> elem_value (heap c' ! q) = elem_value (heap c ! q)) \<and>
              items c' = items c \<and> head c' = head c \<and> size' c' = size' c"
proof -
  have w: "well_formed c" using session_wf[OF assms(1)] by simp
  from promote_props[OF w assms(2)] obtain c' where p: "promote c p = Some c'"
    and e: "items c' = items c" "head c' = head c" "size' c' = size' c"
    and r: "ring c' = (ring c)[nat (index (heap c ! p)) := ring c ! nat (new_slot c p),
                              nat (new_slot c p) := ring c ! nat (index (heap c ! p))]"
    and h: "\<And>q. q < length (heap c) \<Longrightarrow> key (heap c' ! q) = key (heap c ! q) \<and>
         elem_value (heap c' ! q) = elem_value (heap c ! q) \<and>
         index (heap c' ! q) =
           (if q = p then new_slot c p else if ring c ! nat (new_slot c p) = Some q
            then index (heap c ! p) else index (heap c ! q))"
    by blast
  have l: "\<And>k' q. map_of (items c) k' = Some q \<Longrightarrow> q < length (heap c) \<and> key (heap c ! q) = k'"
    using wf_live(1,2)[OF w] by blast
  have ns: "new_slot c p = (head c + (index (heap c ! p) - head c) mod size' c div 2) mod size' c"
    by (simp add: new_slot_def position_of_def)
  show ?thesis
    unfolding Let_def ns[symmetric]
    using p e r h l l[OF assms(2)] by (intro exI[of _ c']) auto
qed

text \<open>
  Claim C5, the theorem at the four-slot example state: key 1 moves from slot 3 to
  slot 2, and key 2, which was there, moves to slot 3.
\<close>

theorem promote_follows_algorithm_witness:
  "session 4 [CallAdd 1 ''a'', CallAdd 2 ''b'', CallAdd 3 ''c'']
     = Some ([RetBool True, RetBool True, RetBool True], demo4) \<and>
   map_of (items demo4) 1 = Some 0 \<and>
   (\<exists>c'. promote demo4 0 = Some c' \<and> ring c' = [None, Some 2, Some 0, Some 1] \<and>
      index (heap c' ! 0) = 2 \<and> index (heap c' ! 1) = 3 \<and> index (heap c' ! 2) = 1 \<and>
      items c' = items demo4)"
proof -
  have m: "map_of (items demo4) 1 = Some 0" by code_simp
  have m2: "map_of (items demo4) 2 = Some 1" by code_simp
  have m3: "map_of (items demo4) 3 = Some 2" by code_simp
  have e1: "index (heap demo4 ! 0) = 3" by code_simp
  have e2: "(head demo4 + (3 - head demo4) mod size' demo4 div 2) mod size' demo4 = 2"
    by code_simp
  have e3: "(ring demo4)[nat 3 := ring demo4 ! nat 2, nat 2 := ring demo4 ! nat 3]
      = [None, Some 2, Some 0, Some 1]" by code_simp
  have e4: "ring demo4 ! nat 2 = Some 1" by code_simp
  have e5: "index (heap demo4 ! 2) = 1" by code_simp
  from promote_follows_algorithm[OF session_demo4 m, unfolded Let_def e1 e2 e3]
  obtain c' where p: "promote demo4 0 = Some c'"
    and r: "ring c' = [None, Some 2, Some 0, Some 1]"
    and i: "index (heap c' ! 0) = 2"
    and d: "\<And>k' q. map_of (items demo4) k' = Some q \<and> q \<noteq> 0 \<and> ring demo4 ! nat 2 = Some q
                 \<Longrightarrow> index (heap c' ! q) = 3"
    and o: "\<And>k' q. map_of (items demo4) k' = Some q \<and> q \<noteq> 0 \<and> ring demo4 ! nat 2 \<noteq> Some q
                 \<Longrightarrow> index (heap c' ! q) = index (heap demo4 ! q)"
    and it: "items c' = items demo4"
    by blast
  have i1: "index (heap c' ! 1) = 3" using d[of 2 1] m2 e4 by simp
  have i2: "index (heap c' ! 2) = 1" using o[of 3 2] m3 e4 e5 by simp
  show ?thesis using session_demo4 m p r i i1 i2 it by blast
qed

section \<open>Failures\<close>

text \<open>
  Claim C9: \<^verbatim>\<open>NewUnsynched\<close> returns an error exactly when the size is not positive;
  on a cache of positive size every sequence of calls runs to its end, no call panics;
  and a key that is not in the key index is reported by a \<open>False\<close> flag (and a \<^verbatim>\<open>nil\<close>
  value) by \<^verbatim>\<open>Get\<close>, \<^verbatim>\<open>Peek\<close>, \<^verbatim>\<open>Contains\<close> and \<^verbatim>\<open>Remove\<close>, which leave the state as it is.
\<close>

theorem only_construction_fails:
  fixes xs :: "('k, 'v) call list" and c :: "('k, 'v) lruish"
  shows "((\<exists>e. (NewUnsynched n :: error + ('k, 'v) lruish) = Inl e) \<longleftrightarrow> n \<le> 0) \<and>
     (0 < n \<longrightarrow> (\<exists>rs c'. session n xs = Some (rs, c'))) \<and>
     (map_of (items c) k = None \<longrightarrow>
        Get c k = Some ((None, False), c) \<and> Peek c k = Some ((None, False), c) \<and>
        Contains c k = Some (False, c) \<and> Remove c k = Some (False, c))"
proof (intro conjI impI)
  show "(\<exists>e. (NewUnsynched n :: error + ('k, 'v) lruish) = Inl e) \<longleftrightarrow> n \<le> 0"
    by (simp add: NewUnsynched_def)
  show "\<exists>rs c'. session n xs = Some (rs, c')" if "0 < n" using session_total[OF that] .
  assume m: "map_of (items c) k = None"
  show "Get c k = Some ((None, False), c)" by (simp add: Get_def m)
  show "Peek c k = Some ((None, False), c)" by (simp add: Peek_def m)
  show "Contains c k = Some (False, c)" by (simp add: Contains_def m)
  show "Remove c k = Some (False, c)" by (simp add: Remove_def m)
qed

text \<open>
  Claim C9, the theorem at sizes 0 and 2, a session that uses every call, and the
  missing key 7 in the two-slot example state.
\<close>

theorem only_construction_fails_witness:
  "(\<exists>e. (NewUnsynched 0 :: error + (nat, string) lruish) = Inl e) \<and>
   (\<nexists>e. (NewUnsynched 2 :: error + (nat, string) lruish) = Inl e) \<and>
   (0::int) < 2 \<and>
   (\<exists>rs c'. session 2 [CallAdd (1::nat) ''a'', CallGet 7, CallPeek 7, CallContains 7,
       CallContainsOrAdd 8 ''b'', CallRemove 7, CallKeys, CallLen, CallPurge, CallGet 1]
       = Some (rs, c')) \<and>
   map_of (items demo2) 7 = None \<and>
   Get demo2 7 = Some ((None, False), demo2) \<and> Peek demo2 7 = Some ((None, False), demo2) \<and>
   Contains demo2 7 = Some (False, demo2) \<and> Remove demo2 7 = Some (False, demo2)"
proof -
  have m: "map_of (items demo2) 7 = None" by code_simp
  note a = only_construction_fails[of 0 "[]" demo2 7]
  note b = only_construction_fails[of 2 "[CallAdd (1::nat) ''a'', CallGet 7, CallPeek 7,
       CallContains 7, CallContainsOrAdd 8 ''b'', CallRemove 7, CallKeys, CallLen, CallPurge,
       CallGet 1]" demo2 7]
  show ?thesis using a b m by simp
qed

end
